theory Spec2Isabelle
  imports Complex_Main "HOL-Library.Multiset"
begin

section \<open>Depth-to-space rearrangement (depth2space.py)\<close>

subsection \<open>Errors and tensors\<close>

text \<open>
  The Python exceptions the transform can raise. \<open>ValueError_unpack\<close> is the
  \<open>ValueError\<close> of the tuple unpacking \<open>b, c, h, w = input.size()\<close> on a tensor whose
  rank is not 4; \<open>ValueError\<close> carries the message of \<open>create_model\<close>;
  \<open>TypeError\<close> is what \<open>Tensor.view\<close> raises for a size that is not a 64-bit integer;
  \<open>RuntimeError\<close> is what \<open>Tensor.view\<close> and \<open>Tensor.permute\<close> raise on a shape they
  cannot serve.
\<close>

datatype py_error =
  ValueError_unpack | ValueError string | ZeroDivisionError | TypeError | RuntimeError

text \<open>
  A tensor is a flat row-major buffer with its sizes, as \<open>torch.tensor\<close> creates it
  (contiguous, storage offset 0). torch keeps every size and the number of elements as
  signed 64-bit integers, so a tensor that exists has all of them below \<open>2 ^ 63\<close>.
\<close>

record 'a tensor =
  sizes :: "nat list"
  storage :: "'a list"

definition fits_int64 :: "nat list \<Rightarrow> bool" where
  "fits_int64 shp = list_all (\<lambda>d. d < 2 ^ 63) shp"

definition tensor_ok :: "'a tensor \<Rightarrow> bool" where
  "tensor_ok t =
     (length (storage t) = prod_list (sizes t) \<and> fits_int64 (sizes t)
      \<and> prod_list (sizes t) < 2 ^ 63)"

text \<open>Row-major strides of a shape, the offset of a multi-index under given strides, and
  the multi-index of a flat row-major position.\<close>

fun c_strides :: "nat list \<Rightarrow> nat list" where
  "c_strides [] = []"
| "c_strides (d # ds) = prod_list ds # c_strides ds"

fun offset :: "nat list \<Rightarrow> nat list \<Rightarrow> nat" where
  "offset (st # sts) (i # is) = i * st + offset sts is"
| "offset _ _ = 0"

fun unravel :: "nat list \<Rightarrow> nat \<Rightarrow> nat list" where
  "unravel [] n = []"
| "unravel (d # ds) n = (n div prod_list ds) # unravel ds (n mod prod_list ds)"

text \<open>Reading one element, \<open>t[i0, i1, ...]\<close>; \<open>None\<close> is Python's \<open>IndexError\<close>.\<close>

definition item :: "'a tensor \<Rightarrow> nat list \<Rightarrow> 'a option" where
  "item t idx =
     (if list_all2 (<) idx (sizes t)
      then Some (storage t ! offset (c_strides (sizes t)) idx)
      else None)"

subsection \<open>The tensor operations the transform calls\<close>

text \<open>
  \<open>Tensor.view(*shape)\<close> on a contiguous tensor. The arguments are Python ints and are
  first converted to 64-bit integers: one outside \<open>[-2^63, 2^63)\<close> is a \<open>TypeError\<close>,
  before the shape is looked at. Then a dimension below \<open>-1\<close> and a second \<open>-1\<close> are
  errors, a single \<open>-1\<close> is inferred, and the number of elements must be kept; the
  buffer is shared, only the sizes change.
\<close>

definition view :: "'a tensor \<Rightarrow> int list \<Rightarrow> py_error + 'a tensor" where
  "view t shp =
     (let numel = prod_list (sizes t);
          inferred = length (filter (\<lambda>d. d = - 1) shp);
          newsize = prod_list (map nat (filter (\<lambda>d. d \<noteq> - 1) shp))
      in if list_ex (\<lambda>d. d < - (2 ^ 63) \<or> 2 ^ 63 \<le> d) shp then Inl TypeError
         else if list_ex (\<lambda>d. d < - 1) shp then Inl RuntimeError
         else if 1 < inferred then Inl RuntimeError
         else if inferred = 1 then
           (if 0 < newsize \<and> numel mod newsize = 0
            then Inr (t\<lparr>sizes := map (\<lambda>d. if d = - 1 then numel div newsize else nat d) shp\<rparr>)
            else Inl RuntimeError)
         else if numel = newsize then Inr (t\<lparr>sizes := map nat shp\<rparr>)
         else Inl RuntimeError)"

text \<open>
  \<open>Tensor.permute(*dims)\<close> returns a strided view on the same buffer: sizes and strides
  are reordered, no element moves; the dimensions must be a permutation of the tensor's
  axes (the transforms pass literal, non-negative ones). \<open>contiguous()\<close> then copies the
  view into a fresh row-major buffer, reading each element at the offset its multi-index
  has under the permuted strides.
\<close>

record 'a strided =
  vsizes :: "nat list"
  vstrides :: "nat list"
  vstorage :: "'a list"

definition permute :: "'a tensor \<Rightarrow> nat list \<Rightarrow> py_error + 'a strided" where
  "permute t dims =
     (if length dims = length (sizes t) \<and> distinct dims
         \<and> list_all (\<lambda>k. k < length (sizes t)) dims
      then Inr \<lparr>vsizes = map (\<lambda>k. sizes t ! k) dims,
                vstrides = map (\<lambda>k. c_strides (sizes t) ! k) dims,
                vstorage = storage t\<rparr>
      else Inl RuntimeError)"

definition source_index :: "nat list \<Rightarrow> nat list \<Rightarrow> nat \<Rightarrow> nat" where
  "source_index vsz vst n = offset vst (unravel vsz n)"

definition contiguous :: "'a strided \<Rightarrow> 'a tensor" where
  "contiguous v =
     \<lparr>sizes = vsizes v,
      storage = map (\<lambda>n. vstorage v ! source_index (vsizes v) (vstrides v) n)
                    [0..<prod_list (vsizes v)]\<rparr>"

subsection \<open>The two eager transforms\<close>

text \<open>
  \<open>DepthToSpace_DCR.forward\<close> and \<open>DepthToSpace_CRD.forward\<close>. \<open>block_size\<close> is a
  Python int, so \<open>c // (block_size ** 2)\<close> raises \<open>ZeroDivisionError\<close> at 0, before
  any tensor operation. The \<open>mode\<close> argument is received and not used.
\<close>

definition DepthToSpace_DCR_forward :: "'a tensor \<Rightarrow> int \<Rightarrow> string \<Rightarrow> py_error + 'a tensor" where
  "DepthToSpace_DCR_forward input block_size mode =
     (case sizes input of
        [b, c, h, w] \<Rightarrow>
          if block_size ^ 2 = 0 then Inl ZeroDivisionError
          else
            (case view input [int b, block_size, block_size, int c div block_size ^ 2,
                              int h, int w] of
               Inl e \<Rightarrow> Inl e
             | Inr tmp \<Rightarrow>
                 (case permute tmp [0, 3, 4, 1, 5, 2] of
                    Inl e \<Rightarrow> Inl e
                  | Inr tmp' \<Rightarrow>
                      view (contiguous tmp')
                        [int b, int c div block_size ^ 2, int h * block_size,
                         int w * block_size]))
      | _ \<Rightarrow> Inl ValueError_unpack)"

definition DepthToSpace_CRD_forward :: "'a tensor \<Rightarrow> int \<Rightarrow> string \<Rightarrow> py_error + 'a tensor" where
  "DepthToSpace_CRD_forward input block_size mode =
     (case sizes input of
        [b, c, h, w] \<Rightarrow>
          if block_size ^ 2 = 0 then Inl ZeroDivisionError
          else
            (case view input [int b, int c div block_size ^ 2, block_size, block_size,
                              int h, int w] of
               Inl e \<Rightarrow> Inl e
             | Inr tmp \<Rightarrow>
                 (case permute tmp [0, 1, 4, 2, 5, 3] of
                    Inl e \<Rightarrow> Inl e
                  | Inr tmp' \<Rightarrow>
                      view (contiguous tmp')
                        [int b, int c div block_size ^ 2, int h * block_size,
                         int w * block_size]))
      | _ \<Rightarrow> Inl ValueError_unpack)"

subsection \<open>Modules and \<open>create_model\<close>\<close>

text \<open>The two \<open>nn.Module\<close> classes hold \<open>block_size\<close> and \<open>mode\<close>; \<open>create_model\<close>
  builds each with the default mode of its class.\<close>

datatype depth_to_space_module =
    DepthToSpace_DCR_Module int string
  | DepthToSpace_CRD_Module int string

fun module_forward :: "depth_to_space_module \<Rightarrow> 'a tensor \<Rightarrow> py_error + 'a tensor" where
  "module_forward (DepthToSpace_DCR_Module block_size mode) x =
     DepthToSpace_DCR_forward x block_size mode"
| "module_forward (DepthToSpace_CRD_Module block_size mode) x =
     DepthToSpace_CRD_forward x block_size mode"

definition create_model :: "int \<Rightarrow> string \<Rightarrow> py_error + depth_to_space_module" where
  "create_model block_size mode =
     (if mode = ''DCR'' then Inr (DepthToSpace_DCR_Module block_size ''DCR'')
      else if mode = ''CRD'' then Inr (DepthToSpace_CRD_Module block_size ''CRD'')
      else Inl (ValueError (''Unknown mode: '' @ mode)))"

subsection \<open>The tensor of \<open>test_depth_to_space\<close>\<close>

definition test_x :: "real tensor" where
  "test_x =
     \<lparr>sizes = [1, 8, 2, 2],
      storage = [0, 2, 8, 10,  0, 2, 8, 10,  1, 3, 9, 11,  1, 3, 9, 11,
                 4, 6, 12, 14,  4, 6, 12, 14,  5, 7, 13, 15,  5, 7, 13, 15]\<rparr>"

text \<open>A tensor of sizes \<open>(1, 4, 1, 2)\<close>: with block size 2 it has one output channel.\<close>

definition single_channel_x :: "real tensor" where
  "single_channel_x = \<lparr>sizes = [1, 4, 1, 2], storage = [0, 1, 2, 3, 4, 5, 6, 7]\<rparr>"

text \<open>A tensor with no element: batch size 0.\<close>

definition empty_x :: "real tensor" where
  "empty_x = \<lparr>sizes = [0, 8, 2, 2], storage = []\<rparr>"

text \<open>A tensor with no element and no channel, of sizes \<open>(0, 0, 2, 2)\<close>.\<close>

definition zero_channel_x :: "real tensor" where
  "zero_channel_x = \<lparr>sizes = [0, 0, 2, 2], storage = []\<rparr>"

subsection \<open>Where each output element comes from\<close>

text \<open>
  The flat input position that \<open>contiguous()\<close> reads for the flat output position \<open>n\<close>,
  for an input of sizes \<open>(b, c, h, w)\<close>: the sizes given to the first \<open>view\<close>, reordered
  by the \<open>permute\<close> of each transform.
\<close>

definition DCR_source :: "nat \<Rightarrow> nat \<Rightarrow> nat \<Rightarrow> nat \<Rightarrow> nat \<Rightarrow> nat \<Rightarrow> nat" where
  "DCR_source b c h w s n =
     source_index [b, c div s\<^sup>2, h, s, w, s]
       (map (\<lambda>k. c_strides [b, s, s, c div s\<^sup>2, h, w] ! k) [0, 3, 4, 1, 5, 2]) n"

definition CRD_source :: "nat \<Rightarrow> nat \<Rightarrow> nat \<Rightarrow> nat \<Rightarrow> nat \<Rightarrow> nat \<Rightarrow> nat" where
  "CRD_source b c h w s n =
     source_index [b, c div s\<^sup>2, h, s, w, s]
       (map (\<lambda>k. c_strides [b, c div s\<^sup>2, s, s, h, w] ! k) [0, 1, 4, 2, 5, 3]) n"

text \<open>
  The first \<open>view\<close> splits the channel axis: as \<open>(s, s, c')\<close> in \<open>DepthToSpace_DCR\<close>, as
  \<open>(c', s, s)\<close> in \<open>DepthToSpace_CRD\<close>. The input channel of the triple
  \<open>(c_out, by, bx)\<close> is its row-major position in that split.
\<close>

definition DCR_channel :: "nat \<Rightarrow> nat \<Rightarrow> nat \<times> nat \<times> nat \<Rightarrow> nat" where
  "DCR_channel s c' = (\<lambda>(c_out, by, bx). offset (c_strides [s, s, c']) [by, bx, c_out])"

definition CRD_channel :: "nat \<Rightarrow> nat \<Rightarrow> nat \<times> nat \<times> nat \<Rightarrow> nat" where
  "CRD_channel s c' = (\<lambda>(c_out, by, bx). offset (c_strides [c', s, s]) [c_out, by, bx])"

subsection \<open>The reference operator of the equivalence test\<close>

text \<open>
  \<open>test_depth_to_space\<close> compares with \<open>nn.PixelShuffle\<close>. This definition follows
  the words of the specification, not the transform's code: on a 4-dimensional tensor,
  \<open>out[b, c, h*s + by, w*s + bx] = in[b, c*s*s + by*s + bx, h, w]\<close>, so the output
  coordinate \<open>(b, c, y, x)\<close> reads \<open>h = y div s\<close>, \<open>by = y mod s\<close>, \<open>w = x div s\<close>,
  \<open>bx = x mod s\<close>.
\<close>

definition pixel_shuffle_spec :: "'a tensor \<Rightarrow> nat \<Rightarrow> 'a tensor option" where
  "pixel_shuffle_spec t s =
     (case sizes t of
        [B, C, H, W] \<Rightarrow>
          Some \<lparr>sizes = [B, C div (s * s), H * s, W * s],
                storage =
                  map (\<lambda>n. let out = unravel [B, C div (s * s), H * s, W * s] n;
                                b = out ! 0; c = out ! 1; y = out ! 2; x = out ! 3
                            in storage t ! offset (c_strides [B, C, H, W])
                                 [b, c * s * s + (y mod s) * s + x mod s, y div s, x div s])
                      [0..<prod_list [B, C div (s * s), H * s, W * s]]\<rparr>
      | _ \<Rightarrow> None)"

section \<open>Index arithmetic\<close>

lemma offset_bound:
  "list_all2 (<) idx shp \<Longrightarrow> offset (c_strides shp) idx < prod_list shp"
proof (induction idx shp rule: list_all2_induct)
  case Nil
  then show ?case by simp
next
  case (Cons i idx d shp)
  have "i * prod_list shp + offset (c_strides shp) idx < Suc i * prod_list shp"
    using Cons.IH by simp
  also have "\<dots> \<le> d * prod_list shp"
    using Cons.hyps(1) by (simp only: Suc_le_eq [symmetric] mult_le_mono1)
  finally show ?case by simp
qed

lemma unravel_offset:
  "list_all2 (<) idx shp \<Longrightarrow> unravel shp (offset (c_strides shp) idx) = idx"
proof (induction idx shp rule: list_all2_induct)
  case Nil
  then show ?case by simp
next
  case (Cons i idx d shp)
  have r: "offset (c_strides shp) idx < prod_list shp"
    using Cons.hyps(2) by (rule offset_bound)
  then show ?case using Cons.IH by simp
qed

lemma unravel_bound:
  "n < prod_list shp \<Longrightarrow> list_all2 (<) (unravel shp n) shp"
proof (induction shp arbitrary: n)
  case Nil
  then show ?case by simp
next
  case (Cons d shp)
  have pos: "0 < prod_list shp" using Cons.prems by (cases "prod_list shp = 0") auto
  have "n div prod_list shp < d"
    using Cons.prems pos by (simp add: less_mult_imp_div_less mult.commute)
  moreover have "n mod prod_list shp < prod_list shp" using pos by simp
  ultimately show ?case using Cons.IH by simp
qed

lemma offset_unravel:
  "n < prod_list shp \<Longrightarrow> offset (c_strides shp) (unravel shp n) = n"
proof (induction shp arbitrary: n)
  case Nil
  then show ?case by simp
next
  case (Cons d shp)
  have pos: "0 < prod_list shp" using Cons.prems by (cases "prod_list shp = 0") auto
  then have "n mod prod_list shp < prod_list shp" by simp
  then show ?case using Cons.IH by simp
qed

lemma scaled_index_less:
  fixes i :: nat
  assumes "i < n" and "r < s"
  shows "i * s + r < n * s"
proof -
  have "i * s + r < Suc i * s" using assms(2) by simp
  also have "\<dots> \<le> n * s" using assms(1) by (simp only: Suc_le_eq [symmetric] mult_le_mono1)
  finally show ?thesis .
qed

lemma length_unravel: "length (unravel shp n) = length shp"
  by (induction shp arbitrary: n) simp_all

lemma list6:
  assumes "length xs = 6"
  obtains a b c d e f where "xs = [a, b, c, d, e, f]"
proof -
  from assms obtain a b c d e f where "xs = [a, b, c, d, e, f]"
    by (auto simp: length_Suc_conv eval_nat_numeral)
  then show ?thesis by (rule that)
qed

lemma gather_bij:
  assumes qp: "\<And>idx. list_all2 (<) idx oshp \<Longrightarrow> list_all2 (<) (q idx) ishp \<and> p (q idx) = idx"
    and pq: "\<And>idx. list_all2 (<) idx ishp \<Longrightarrow> list_all2 (<) (p idx) oshp \<and> q (p idx) = idx"
    and No: "prod_list oshp = N" and Ni: "prod_list ishp = N"
  shows "bij_betw (\<lambda>n. offset (c_strides ishp) (q (unravel oshp n))) {..<N} {..<N}"
proof (rule bij_betw_byWitness [where f' = "\<lambda>m. offset (c_strides oshp) (p (unravel ishp m))"])
  show "\<forall>n\<in>{..<N}. offset (c_strides oshp) (p (unravel ishp (offset (c_strides ishp) (q (unravel oshp n))))) = n"
  proof
    fix n assume "n \<in> {..<N}"
    then have n: "n < prod_list oshp" using No by simp
    have b: "list_all2 (<) (unravel oshp n) oshp" using n by (rule unravel_bound)
    show "offset (c_strides oshp) (p (unravel ishp (offset (c_strides ishp) (q (unravel oshp n))))) = n"
      using qp [OF b] by (simp add: unravel_offset offset_unravel [OF n])
  qed
  show "\<forall>m\<in>{..<N}. offset (c_strides ishp) (q (unravel oshp (offset (c_strides oshp) (p (unravel ishp m))))) = m"
  proof
    fix m assume "m \<in> {..<N}"
    then have m: "m < prod_list ishp" using Ni by simp
    have b: "list_all2 (<) (unravel ishp m) ishp" using m by (rule unravel_bound)
    show "offset (c_strides ishp) (q (unravel oshp (offset (c_strides oshp) (p (unravel ishp m))))) = m"
      using pq [OF b] by (simp add: unravel_offset offset_unravel [OF m])
  qed
  show "(\<lambda>n. offset (c_strides ishp) (q (unravel oshp n))) ` {..<N} \<subseteq> {..<N}"
  proof
    fix m assume "m \<in> (\<lambda>n. offset (c_strides ishp) (q (unravel oshp n))) ` {..<N}"
    then obtain n where n: "n < prod_list oshp" and m: "m = offset (c_strides ishp) (q (unravel oshp n))"
      using No by auto
    have "list_all2 (<) (q (unravel oshp n)) ishp" using qp [OF unravel_bound [OF n]] by simp
    then show "m \<in> {..<N}" using offset_bound [of "q (unravel oshp n)" ishp] m Ni by simp
  qed
  show "(\<lambda>m. offset (c_strides oshp) (p (unravel ishp m))) ` {..<N} \<subseteq> {..<N}"
  proof
    fix n assume "n \<in> (\<lambda>m. offset (c_strides oshp) (p (unravel ishp m))) ` {..<N}"
    then obtain m where m: "m < prod_list ishp" and n: "n = offset (c_strides oshp) (p (unravel ishp m))"
      using Ni by auto
    have "list_all2 (<) (p (unravel ishp m)) oshp" using pq [OF unravel_bound [OF m]] by simp
    then show "n \<in> {..<N}" using offset_bound [of "p (unravel ishp m)" oshp] n No by simp
  qed
qed

section \<open>The transforms in closed form\<close>

lemma int64_range_of_nat:
  "list_ex (\<lambda>d. d < - (2 ^ 63) \<or> 2 ^ 63 \<le> d) (map int shp) = (\<not> fits_int64 shp)"
proof -
  have neg: "\<not> int d < - (2 ^ 63)" for d
  proof -
    have "(0::int) \<le> int d" by simp
    moreover have "- (2 ^ 63) < (0::int)" by simp
    ultimately show ?thesis by linarith
  qed
  show ?thesis
    by (auto simp: list_ex_iff fits_int64_def list_all_iff neg not_less)
qed

lemma view_of_nat:
  "view t (map int shp) =
     (if \<not> fits_int64 shp then Inl TypeError
      else if prod_list (sizes t) = prod_list shp then Inr (t\<lparr>sizes := shp\<rparr>)
      else Inl RuntimeError)"
proof -
  have a: "\<not> list_ex (\<lambda>d. d < - 1) (map int shp)"
    by (simp add: list_ex_iff)
  have b: "filter (\<lambda>d. d = - 1) (map int shp) = []"
    by (simp add: filter_empty_conv)
  have c: "filter (\<lambda>d. d \<noteq> - 1) (map int shp) = map int shp"
    by (simp add: filter_id_conv)
  have d: "map nat (map int shp) = shp"
    by (simp add: comp_def)
  show ?thesis
    unfolding view_def Let_def b c d int64_range_of_nat using a by simp
qed

lemma fits_int64_Cons [simp]:
  "fits_int64 (d # ds) = (d < 2 ^ 63 \<and> fits_int64 ds)" and fits_int64_Nil [simp]: "fits_int64 []"
  by (simp_all add: fits_int64_def)

lemma view_shape_DCR:
  "[int b, int s, int s, int c div (int s)\<^sup>2, int h, int w] = map int [b, s, s, c div s\<^sup>2, h, w]"
  by (simp add: zdiv_int)

lemma view_shape_CRD:
  "[int b, int c div (int s)\<^sup>2, int s, int s, int h, int w] = map int [b, c div s\<^sup>2, s, s, h, w]"
  by (simp add: zdiv_int)

lemma view_shape_out:
  "[int b, int c div (int s)\<^sup>2, int h * int s, int w * int s] = map int [b, c div s\<^sup>2, h * s, w * s]"
  by (simp add: zdiv_int)

lemma factor_le_product:
  fixes a k :: nat
  assumes "0 < k"
  shows "a \<le> a * k" and "a \<le> k * a"
  using assms by simp_all

lemma nonempty_fits:
  assumes "tensor_ok x" and "sizes x = [B, C, H, W]" and "storage x \<noteq> []"
    and "0 < s" and "s\<^sup>2 dvd C"
  shows "fits_int64 [B, s, C div s\<^sup>2, H, W, H * s, W * s]"
proof -
  define C' where "C' = C div s\<^sup>2"
  define N where "N = prod_list [B, C, H, W]"
  have C: "C = s * s * C'" using assms(5) by (simp add: C'_def power2_eq_square)
  have N: "N = B * (s * (s * (C' * (H * W))))" by (simp add: N_def C)
  have len: "length (storage x) = N" and lim: "N < 2 ^ 63"
    using assms(1,2) by (simp_all add: tensor_ok_def N_def)
  have "0 < length (storage x)" using assms(3) by simp
  then have pos: "0 < N" unfolding len .
  from pos have B: "0 < B" and C': "0 < C'" and H: "0 < H" and W: "0 < W"
    unfolding N by simp_all
  have "B \<le> N" unfolding N using assms(4) C' H W by (intro factor_le_product) simp
  moreover have "s \<le> N"
  proof -
    have "s \<le> s * (B * (s * (C' * (H * W))))"
      using assms(4) B C' H W by (intro factor_le_product) simp
    then show ?thesis by (simp add: N mult_ac)
  qed
  moreover have "C' \<le> N"
  proof -
    have "C' \<le> C' * (B * (s * (s * (H * W))))"
      using assms(4) B H W by (intro factor_le_product) simp
    then show ?thesis by (simp add: N mult_ac)
  qed
  moreover have "H \<le> N"
  proof -
    have "H \<le> H * (B * (s * (s * (C' * W))))"
      using assms(4) B C' W by (intro factor_le_product) simp
    then show ?thesis by (simp add: N mult_ac)
  qed
  moreover have "W \<le> N"
  proof -
    have "W \<le> W * (B * (s * (s * (C' * H))))"
      using assms(4) B C' H by (intro factor_le_product) simp
    then show ?thesis by (simp add: N mult_ac)
  qed
  moreover have "H * s \<le> N"
  proof -
    have "H * s \<le> H * s * (B * (s * (C' * W)))"
      using assms(4) B C' W by (intro factor_le_product) simp
    then show ?thesis by (simp add: N mult_ac)
  qed
  moreover have "W * s \<le> N"
  proof -
    have "W * s \<le> W * s * (B * (s * (C' * H)))"
      using assms(4) B C' H by (intro factor_le_product) simp
    then show ?thesis by (simp add: N mult_ac)
  qed
  ultimately show ?thesis using lim unfolding C'_def by simp
qed

lemma DCR_strides:
  "map (\<lambda>k. c_strides [b, s, s, c', h, w] ! k) [0, 3, 4, 1, 5, 2]
     = [s * (s * (c' * (h * w))), h * w, w, s * (c' * (h * w)), 1, c' * (h * w)]"
  by simp

lemma DCR_forward_value:
  assumes "sizes x = [B, C, H, W]" "0 < s" "s\<^sup>2 dvd C"
    and "fits_int64 [B, s, C div s\<^sup>2, H, W, H * s, W * s]"
  shows "DepthToSpace_DCR_forward x (int s) mode =
     Inr \<lparr>sizes = [B, C div s\<^sup>2, H * s, W * s],
          storage = map (\<lambda>n. storage x ! source_index [B, C div s\<^sup>2, H, s, W, s]
                 [s * (s * (C div s\<^sup>2 * (H * W))), H * W, W, s * (C div s\<^sup>2 * (H * W)), 1,
                  C div s\<^sup>2 * (H * W)] n)
              [0..<B * (C div s\<^sup>2 * (H * (s * (W * s))))]\<rparr>"
proof -
  have C: "C = s\<^sup>2 * (C div s\<^sup>2)" using assms(3) by simp
  have numel: "B * (C * (H * W)) = B * (s * (s * (C div s\<^sup>2 * (H * W))))"
    by (subst C) (simp add: power2_eq_square)
  show ?thesis
    unfolding DepthToSpace_DCR_forward_def view_shape_DCR view_shape_out view_of_nat
    using assms(1,2,4) numel
    by (simp add: permute_def contiguous_def)
qed

lemma DCR_forward_overflow:
  assumes "sizes x = [B, C, H, W]" "0 < s" "s\<^sup>2 dvd C"
    and "\<not> fits_int64 [B, s, C div s\<^sup>2, H, W, H * s, W * s]"
  shows "DepthToSpace_DCR_forward x (int s) mode = Inl TypeError"
proof -
  have C: "C = s\<^sup>2 * (C div s\<^sup>2)" using assms(3) by simp
  have numel: "B * (C * (H * W)) = B * (s * (s * (C div s\<^sup>2 * (H * W))))"
    by (subst C) (simp add: power2_eq_square)
  show ?thesis
    unfolding DepthToSpace_DCR_forward_def view_shape_DCR view_shape_out view_of_nat
    using assms(1,2,4) numel
    by (auto simp: permute_def contiguous_def)
qed

lemma DCR_forward_source:
  assumes "sizes x = [B, C, H, W]" "0 < s" "s\<^sup>2 dvd C"
    and "fits_int64 [B, s, C div s\<^sup>2, H, W, H * s, W * s]"
  shows "DepthToSpace_DCR_forward x (int s) mode =
     Inr \<lparr>sizes = [B, C div s\<^sup>2, H * s, W * s],
          storage = map (\<lambda>n. storage x ! DCR_source B C H W s n) [0..<prod_list [B, C, H, W]]\<rparr>"
proof -
  have C: "C = s\<^sup>2 * (C div s\<^sup>2)" using assms(3) by simp
  have numel: "prod_list [B, C, H, W] = B * (C div s\<^sup>2 * (H * (s * (W * s))))"
    by (subst C) (simp add: power2_eq_square)
  show ?thesis
    unfolding DCR_source_def DCR_strides numel
    by (rule DCR_forward_value [OF assms])
qed

lemma DCR_source_coord:
  assumes "b < B" "c < C'" "h < H" "w < W" "by < s" "bx < s"
  shows "DCR_source B (s * s * C') H W s
           (offset (c_strides [B, C', H * s, W * s]) [b, c, h * s + by, w * s + bx])
       = offset (c_strides [B, s * s * C', H, W]) [b, by * s * C' + bx * C' + c, h, w]"
proof -
  have s: "0 < s" using assms(5) by simp
  have cd: "(s * s * C') div s\<^sup>2 = C'" using s by (simp add: power2_eq_square)
  have flat: "offset (c_strides [B, C', H * s, W * s]) [b, c, h * s + by, w * s + bx]
      = offset (c_strides [B, C', H, s, W, s]) [b, c, h, by, w, bx]"
    by (simp add: algebra_simps)
  have idx: "unravel [B, C', H, s, W, s] (offset (c_strides [B, C', H, s, W, s]) [b, c, h, by, w, bx])
      = [b, c, h, by, w, bx]"
    by (rule unravel_offset) (simp add: assms)
  show ?thesis
    unfolding DCR_source_def source_index_def cd flat idx
    by (simp add: algebra_simps)
qed

lemma DCR_source_gather:
  assumes cd: "C div s\<^sup>2 = C'"
  shows "DCR_source B C H W s n =
     offset (c_strides [B, s, s, C', H, W])
       ((\<lambda>i. [i ! 0, i ! 3, i ! 5, i ! 1, i ! 2, i ! 4]) (unravel [B, C', H, s, W, s] n))"
proof -
  have "length (unravel [B, C', H, s, W, s] n) = 6" by (simp only: length_unravel) simp
  then obtain a b c d e f where u: "unravel [B, C', H, s, W, s] n = [a, b, c, d, e, f]"
    by (rule list6)
  show ?thesis
    unfolding DCR_source_def source_index_def cd DCR_strides u
    by simp
qed

lemma DCR_source_bij:
  assumes "0 < s" and "s\<^sup>2 dvd C"
  shows "bij_betw (DCR_source B C H W s) {..<prod_list [B, C, H, W]} {..<prod_list [B, C, H, W]}"
proof -
  define C' where "C' = C div s\<^sup>2"
  have C: "C = s * s * C'" using assms(2) by (simp add: C'_def power2_eq_square)
  let ?N = "prod_list [B, C, H, W]"
  let ?q = "\<lambda>i::nat list. [i ! 0, i ! 3, i ! 5, i ! 1, i ! 2, i ! 4]"
  let ?p = "\<lambda>i::nat list. [i ! 0, i ! 3, i ! 4, i ! 1, i ! 5, i ! 2]"
  have "bij_betw (\<lambda>n. offset (c_strides [B, s, s, C', H, W]) (?q (unravel [B, C', H, s, W, s] n)))
          {..<?N} {..<?N}"
  proof (rule gather_bij [where p = ?p])
    show "list_all2 (<) (?q idx) [B, s, s, C', H, W] \<and> ?p (?q idx) = idx"
      if "list_all2 (<) idx [B, C', H, s, W, s]" for idx
      using that by (auto simp: list_all2_Cons2)
    show "list_all2 (<) (?p idx) [B, C', H, s, W, s] \<and> ?q (?p idx) = idx"
      if "list_all2 (<) idx [B, s, s, C', H, W]" for idx
      using that by (auto simp: list_all2_Cons2)
    show "prod_list [B, C', H, s, W, s] = ?N" by (simp add: C)
    show "prod_list [B, s, s, C', H, W] = ?N" by (simp add: C)
  qed
  moreover have "DCR_source B C H W s n =
      offset (c_strides [B, s, s, C', H, W]) (?q (unravel [B, C', H, s, W, s] n))"
    if "n \<in> {..<?N}" for n
    by (rule DCR_source_gather) (simp add: C'_def)
  ultimately show ?thesis
    by (subst bij_betw_cong) auto
qed

lemma CRD_strides:
  "map (\<lambda>k. c_strides [b, c', s, s, h, w] ! k) [0, 1, 4, 2, 5, 3]
     = [c' * (s * (s * (h * w))), s * (s * (h * w)), w, s * (h * w), 1, h * w]"
  by simp

lemma CRD_forward_value:
  assumes "sizes x = [B, C, H, W]" "0 < s" "s\<^sup>2 dvd C"
    and "fits_int64 [B, s, C div s\<^sup>2, H, W, H * s, W * s]"
  shows "DepthToSpace_CRD_forward x (int s) mode =
     Inr \<lparr>sizes = [B, C div s\<^sup>2, H * s, W * s],
          storage = map (\<lambda>n. storage x ! source_index [B, C div s\<^sup>2, H, s, W, s]
                 [C div s\<^sup>2 * (s * (s * (H * W))), s * (s * (H * W)), W, s * (H * W), 1,
                  H * W] n)
              [0..<B * (C div s\<^sup>2 * (H * (s * (W * s))))]\<rparr>"
proof -
  have C: "C = s\<^sup>2 * (C div s\<^sup>2)" using assms(3) by simp
  have numel: "B * (C * (H * W)) = B * (C div s\<^sup>2 * (s * (s * (H * W))))"
    by (subst C) (simp add: power2_eq_square)
  show ?thesis
    unfolding DepthToSpace_CRD_forward_def view_shape_CRD view_shape_out view_of_nat
    using assms(1,2,4) numel
    by (simp add: permute_def contiguous_def)
qed

lemma CRD_forward_overflow:
  assumes "sizes x = [B, C, H, W]" "0 < s" "s\<^sup>2 dvd C"
    and "\<not> fits_int64 [B, s, C div s\<^sup>2, H, W, H * s, W * s]"
  shows "DepthToSpace_CRD_forward x (int s) mode = Inl TypeError"
proof -
  have C: "C = s\<^sup>2 * (C div s\<^sup>2)" using assms(3) by simp
  have numel: "B * (C * (H * W)) = B * (C div s\<^sup>2 * (s * (s * (H * W))))"
    by (subst C) (simp add: power2_eq_square)
  show ?thesis
    unfolding DepthToSpace_CRD_forward_def view_shape_CRD view_shape_out view_of_nat
    using assms(1,2,4) numel
    by (auto simp: permute_def contiguous_def)
qed

lemma CRD_forward_source:
  assumes "sizes x = [B, C, H, W]" "0 < s" "s\<^sup>2 dvd C"
    and "fits_int64 [B, s, C div s\<^sup>2, H, W, H * s, W * s]"
  shows "DepthToSpace_CRD_forward x (int s) mode =
     Inr \<lparr>sizes = [B, C div s\<^sup>2, H * s, W * s],
          storage = map (\<lambda>n. storage x ! CRD_source B C H W s n) [0..<prod_list [B, C, H, W]]\<rparr>"
proof -
  have C: "C = s\<^sup>2 * (C div s\<^sup>2)" using assms(3) by simp
  have numel: "prod_list [B, C, H, W] = B * (C div s\<^sup>2 * (H * (s * (W * s))))"
    by (subst C) (simp add: power2_eq_square)
  show ?thesis
    unfolding CRD_source_def CRD_strides numel
    by (rule CRD_forward_value [OF assms])
qed

lemma CRD_source_coord:
  assumes "b < B" "c < C'" "h < H" "w < W" "by < s" "bx < s"
  shows "CRD_source B (s * s * C') H W s
           (offset (c_strides [B, C', H * s, W * s]) [b, c, h * s + by, w * s + bx])
       = offset (c_strides [B, s * s * C', H, W]) [b, c * s * s + by * s + bx, h, w]"
proof -
  have s: "0 < s" using assms(5) by simp
  have cd: "(s * s * C') div s\<^sup>2 = C'" using s by (simp add: power2_eq_square)
  have flat: "offset (c_strides [B, C', H * s, W * s]) [b, c, h * s + by, w * s + bx]
      = offset (c_strides [B, C', H, s, W, s]) [b, c, h, by, w, bx]"
    by (simp add: algebra_simps)
  have idx: "unravel [B, C', H, s, W, s] (offset (c_strides [B, C', H, s, W, s]) [b, c, h, by, w, bx])
      = [b, c, h, by, w, bx]"
    by (rule unravel_offset) (simp add: assms)
  show ?thesis
    unfolding CRD_source_def source_index_def cd flat idx
    by (simp add: algebra_simps)
qed

lemma CRD_source_gather:
  assumes cd: "C div s\<^sup>2 = C'"
  shows "CRD_source B C H W s n =
     offset (c_strides [B, C', s, s, H, W])
       ((\<lambda>i. [i ! 0, i ! 1, i ! 3, i ! 5, i ! 2, i ! 4]) (unravel [B, C', H, s, W, s] n))"
proof -
  have "length (unravel [B, C', H, s, W, s] n) = 6" by (simp only: length_unravel) simp
  then obtain a b c d e f where u: "unravel [B, C', H, s, W, s] n = [a, b, c, d, e, f]"
    by (rule list6)
  show ?thesis
    unfolding CRD_source_def source_index_def cd CRD_strides u
    by simp
qed

lemma CRD_source_bij:
  assumes "0 < s" and "s\<^sup>2 dvd C"
  shows "bij_betw (CRD_source B C H W s) {..<prod_list [B, C, H, W]} {..<prod_list [B, C, H, W]}"
proof -
  define C' where "C' = C div s\<^sup>2"
  have C: "C = s * s * C'" using assms(2) by (simp add: C'_def power2_eq_square)
  let ?N = "prod_list [B, C, H, W]"
  let ?q = "\<lambda>i::nat list. [i ! 0, i ! 1, i ! 3, i ! 5, i ! 2, i ! 4]"
  let ?p = "\<lambda>i::nat list. [i ! 0, i ! 1, i ! 4, i ! 2, i ! 5, i ! 3]"
  have "bij_betw (\<lambda>n. offset (c_strides [B, C', s, s, H, W]) (?q (unravel [B, C', H, s, W, s] n)))
          {..<?N} {..<?N}"
  proof (rule gather_bij [where p = ?p])
    show "list_all2 (<) (?q idx) [B, C', s, s, H, W] \<and> ?p (?q idx) = idx"
      if "list_all2 (<) idx [B, C', H, s, W, s]" for idx
      using that by (auto simp: list_all2_Cons2)
    show "list_all2 (<) (?p idx) [B, C', H, s, W, s] \<and> ?q (?p idx) = idx"
      if "list_all2 (<) idx [B, C', s, s, H, W]" for idx
      using that by (auto simp: list_all2_Cons2)
    show "prod_list [B, C', H, s, W, s] = ?N" by (simp add: C)
    show "prod_list [B, C', s, s, H, W] = ?N" by (simp add: C)
  qed
  moreover have "CRD_source B C H W s n =
      offset (c_strides [B, C', s, s, H, W]) (?q (unravel [B, C', H, s, W, s] n))"
    if "n \<in> {..<?N}" for n
    by (rule CRD_source_gather) (simp add: C'_def)
  ultimately show ?thesis
    by (subst bij_betw_cong) auto
qed

lemma DCR_forward_Inr:
  assumes "sizes x = [B, C, H, W]" "0 < s" "s\<^sup>2 dvd C"
    and "DepthToSpace_DCR_forward x (int s) mode = Inr y"
  shows "fits_int64 [B, s, C div s\<^sup>2, H, W, H * s, W * s]"
    and "y = \<lparr>sizes = [B, C div s\<^sup>2, H * s, W * s],
          storage = map (\<lambda>n. storage x ! DCR_source B C H W s n) [0..<prod_list [B, C, H, W]]\<rparr>"
proof -
  show fits: "fits_int64 [B, s, C div s\<^sup>2, H, W, H * s, W * s]"
  proof (rule ccontr)
    assume "\<not> fits_int64 [B, s, C div s\<^sup>2, H, W, H * s, W * s]"
    then have "DepthToSpace_DCR_forward x (int s) mode = Inl TypeError"
      by (rule DCR_forward_overflow [OF assms(1-3)])
    with assms(4) show False by simp
  qed
  show "y = \<lparr>sizes = [B, C div s\<^sup>2, H * s, W * s],
          storage = map (\<lambda>n. storage x ! DCR_source B C H W s n) [0..<prod_list [B, C, H, W]]\<rparr>"
    using assms(4) unfolding DCR_forward_source [OF assms(1-3) fits] by simp
qed

lemma CRD_forward_Inr:
  assumes "sizes x = [B, C, H, W]" "0 < s" "s\<^sup>2 dvd C"
    and "DepthToSpace_CRD_forward x (int s) mode = Inr y"
  shows "fits_int64 [B, s, C div s\<^sup>2, H, W, H * s, W * s]"
    and "y = \<lparr>sizes = [B, C div s\<^sup>2, H * s, W * s],
          storage = map (\<lambda>n. storage x ! CRD_source B C H W s n) [0..<prod_list [B, C, H, W]]\<rparr>"
proof -
  show fits: "fits_int64 [B, s, C div s\<^sup>2, H, W, H * s, W * s]"
  proof (rule ccontr)
    assume "\<not> fits_int64 [B, s, C div s\<^sup>2, H, W, H * s, W * s]"
    then have "DepthToSpace_CRD_forward x (int s) mode = Inl TypeError"
      by (rule CRD_forward_overflow [OF assms(1-3)])
    with assms(4) show False by simp
  qed
  show "y = \<lparr>sizes = [B, C div s\<^sup>2, H * s, W * s],
          storage = map (\<lambda>n. storage x ! CRD_source B C H W s n) [0..<prod_list [B, C, H, W]]\<rparr>"
    using assms(4) unfolding CRD_forward_source [OF assms(1-3) fits] by simp
qed

section \<open>Claims\<close>

text \<open>
  C1. In DCR mode, for a 4-dimensional input whose channel count \<open>C\<close> is divisible by
  \<open>s * s\<close>, the transform returns a tensor whose element at \<open>(b, c_out, h_in*s + by,
  w_in*s + bx)\<close> is the input element at \<open>(b, by*s*C_out + bx*C_out + c_out, h_in, w_in)\<close>,
  where \<open>C_out = C div (s * s)\<close>, for all coordinates in range.
\<close>

theorem DCR_element:
  assumes "tensor_ok x" and "sizes x = [B, C, H, W]" and "0 < s" and "s * s dvd C"
    and "b < B" and "c_out < C div (s * s)" and "h_in < H" and "w_in < W"
    and "by < s" and "bx < s"
  shows "\<exists>y v. DepthToSpace_DCR_forward x (int s) mode = Inr y
           \<and> item y [b, c_out, h_in * s + by, w_in * s + bx] = Some v
           \<and> item x [b, by * s * (C div (s * s)) + bx * (C div (s * s)) + c_out, h_in, w_in]
               = Some v"
proof -
  define C' where "C' = C div (s * s)"
  have C: "C = s * s * C'" using assms(4) by (simp add: C'_def)
  have dv: "s\<^sup>2 dvd C" using assms(4) by (simp add: power2_eq_square)
  have cd: "C div s\<^sup>2 = C'" by (simp add: C'_def power2_eq_square)
  let ?out = "[b, c_out, h_in * s + by, w_in * s + bx]"
  let ?in = "[b, by * s * C' + bx * C' + c_out, h_in, w_in]"
  let ?y = "\<lparr>sizes = [B, C', H * s, W * s],
          storage = map (\<lambda>n. storage x ! DCR_source B C H W s n) [0..<prod_list [B, C, H, W]]\<rparr>"
  have ne: "storage x \<noteq> []"
  proof -
    have "0 < B" "0 < C'" "0 < H" "0 < W" using assms(5-8) by (simp_all add: C'_def)
    then have "0 < prod_list [B, C, H, W]" using assms(3) by (simp add: C)
    then show ?thesis using assms(1,2) by (auto simp: tensor_ok_def)
  qed
  have fits: "fits_int64 [B, s, C div s\<^sup>2, H, W, H * s, W * s]"
    by (rule nonempty_fits [OF assms(1,2) ne assms(3) dv])
  have fw: "DepthToSpace_DCR_forward x (int s) mode = Inr ?y"
    using DCR_forward_source [OF assms(2,3) dv fits] by (simp add: cd)
  have hy: "h_in * s + by < H * s"
    using assms(7,9) by (rule scaled_index_less)
  have wx: "w_in * s + bx < W * s"
    using assms(8,10) by (rule scaled_index_less)
  have out_ok: "list_all2 (<) ?out [B, C', H * s, W * s]"
    using assms(5,6) hy wx by (simp add: C'_def)
  have cin: "by * s * C' + bx * C' + c_out < C"
  proof -
    have "offset (c_strides [s, s, C']) [by, bx, c_out] < prod_list [s, s, C']"
      by (rule offset_bound) (use assms(6,9,10) in \<open>simp add: C'_def\<close>)
    then show ?thesis by (simp add: C algebra_simps)
  qed
  have in_ok: "list_all2 (<) ?in [B, C, H, W]"
    using assms(5,7,8) cin by simp
  have pos_lt: "offset (c_strides [B, C', H * s, W * s]) ?out < prod_list [B, C, H, W]"
    using offset_bound [OF out_ok] by (simp add: C algebra_simps)
  have src: "DCR_source B C H W s (offset (c_strides [B, C', H * s, W * s]) ?out)
       = offset (c_strides [B, C, H, W]) ?in"
    unfolding C using assms(5-10) by (intro DCR_source_coord) (simp_all add: C'_def)
  have "item ?y ?out = Some (storage x ! offset (c_strides [B, C, H, W]) ?in)"
    using out_ok pos_lt src
    by (simp add: item_def del: offset.simps c_strides.simps list_all2_Cons)
  moreover have "item x ?in = Some (storage x ! offset (c_strides [B, C, H, W]) ?in)"
    using in_ok assms(2) by (simp add: item_def del: offset.simps c_strides.simps)
  ultimately show ?thesis using fw unfolding C'_def by blast
qed

theorem DCR_element_witness:
  "tensor_ok test_x \<and> sizes test_x = [1, 8, 2, 2] \<and> (0::nat) < 2 \<and> (2::nat) * 2 dvd 8
   \<and> (\<exists>y v. DepthToSpace_DCR_forward test_x 2 ''DCR'' = Inr y
          \<and> item y [0, 1, 3, 1] = Some v \<and> item test_x [0, 7, 1, 0] = Some v)"
  using DCR_element [of test_x 1 8 2 2 2 0 1 1 0 1 1 "''DCR''"]
  by (simp add: test_x_def tensor_ok_def)

subsection \<open>The tensor of the test, evaluated\<close>

lemma upt32: "[0..<32] = [0,1,2,3,4,5,6,7,8,9,10,11,12,13,14,15,16,17,18,19,20,21,22,23,24,25,26,27,28,29,30,31]"
  by (simp add: upt_rec)

lemma CRD_test_x: "DepthToSpace_CRD_forward test_x 2 mode =
   Inr \<lparr>sizes = [1, 2, 4, 4],
        storage =
          [0, 0, 2, 2, 1, 1, 3, 3, 8, 8, 10, 10, 9, 9, 11, 11, 4, 4, 6, 6,
           5, 5, 7, 7, 12, 12, 14, 14, 13, 13, 15, 15]\<rparr>"
  by (simp add: DepthToSpace_CRD_forward_def test_x_def view_def permute_def contiguous_def source_index_def upt32)

lemma DCR_test_x: "DepthToSpace_DCR_forward test_x 2 mode =
   Inr \<lparr>sizes = [1, 2, 4, 4],
        storage =
          [0, 1, 2, 3, 4, 5, 6, 7, 8, 9, 10, 11, 12, 13, 14, 15, 0, 1, 2, 3,
           4, 5, 6, 7, 8, 9, 10, 11, 12, 13, 14, 15]\<rparr>"
  by (simp add: DepthToSpace_DCR_forward_def test_x_def view_def permute_def contiguous_def source_index_def upt32)

lemma pixel_shuffle_test_x: "pixel_shuffle_spec test_x 2 =
   Some \<lparr>sizes = [1, 2, 4, 4],
        storage =
          [0, 0, 2, 2, 1, 1, 3, 3, 8, 8, 10, 10, 9, 9, 11, 11, 4, 4, 6, 6,
           5, 5, 7, 7, 12, 12, 14, 14, 13, 13, 15, 15]\<rparr>"
  by (simp add: pixel_shuffle_spec_def test_x_def upt32 Let_def)

text \<open>
  C2. On the tensor of \<open>test_depth_to_space\<close> (sizes \<open>(1, 8, 2, 2)\<close>) with block size 2,
  the CRD transform returns the canonical pixel-shuffle result: same sizes, every pair of
  elements within \<open>1e-6\<close> of each other; in fact the two tensors are equal.
\<close>

theorem CRD_equals_pixel_shuffle_on_test_x:
  "\<exists>y r. DepthToSpace_CRD_forward test_x 2 ''CRD'' = Inr y
       \<and> pixel_shuffle_spec test_x 2 = Some r
       \<and> sizes y = sizes r
       \<and> list_all2 (\<lambda>u v. \<bar>u - v\<bar> \<le> 1 / 10 ^ 6) (storage y) (storage r)
       \<and> y = r"
  unfolding CRD_test_x pixel_shuffle_test_x by simp

text \<open>
  C6. On the same tensor with block size 2, the DCR and the CRD transforms differ at a
  coordinate: at \<open>(0, 0, 0, 1)\<close> the DCR output holds 1 and the CRD output holds 0.
\<close>

theorem DCR_differs_from_CRD_on_test_x:
  "\<exists>yd yc. DepthToSpace_DCR_forward test_x 2 ''DCR'' = Inr yd
       \<and> DepthToSpace_CRD_forward test_x 2 ''CRD'' = Inr yc
       \<and> item yd [0, 0, 0, 1] = Some 1 \<and> item yc [0, 0, 0, 1] = Some 0"
  unfolding CRD_test_x DCR_test_x by (simp add: item_def)




text \<open>
  C9. The \<open>forward\<close> computations ignore their \<open>mode\<close> argument: any two mode values,
  also values outside DCR and CRD, give the same result (the same tensor or the same
  error), for every input and block size.
\<close>

theorem forward_ignores_mode:
  "DepthToSpace_DCR_forward x block_size m1 = DepthToSpace_DCR_forward x block_size m2
   \<and> DepthToSpace_CRD_forward x block_size m1 = DepthToSpace_CRD_forward x block_size m2"
  by (simp add: DepthToSpace_DCR_forward_def DepthToSpace_CRD_forward_def)

text \<open>
  C8. \<open>create_model\<close> raises its \<open>ValueError\<close> ("Unknown mode") for every mode other
  than \<open>DCR\<close> and \<open>CRD\<close>, and for these two it raises nothing and returns the module of
  that mode.
\<close>

theorem create_model_mode:
  "(mode \<noteq> ''DCR'' \<and> mode \<noteq> ''CRD''
      \<longrightarrow> create_model block_size mode = Inl (ValueError (''Unknown mode: '' @ mode)))
   \<and> (mode = ''DCR'' \<longrightarrow> create_model block_size mode = Inr (DepthToSpace_DCR_Module block_size ''DCR''))
   \<and> (mode = ''CRD'' \<longrightarrow> create_model block_size mode = Inr (DepthToSpace_CRD_Module block_size ''CRD''))"
  by (simp add: create_model_def)

theorem create_model_mode_witness:
  "create_model 2 ''dcr'' = Inl (ValueError ''Unknown mode: dcr'')
   \<and> create_model 2 ''DCR'' = Inr (DepthToSpace_DCR_Module 2 ''DCR'')
   \<and> create_model 2 ''CRD'' = Inr (DepthToSpace_CRD_Module 2 ''CRD'')"
  using create_model_mode [of "''dcr''" 2] create_model_mode [of "''DCR''" 2]
    create_model_mode [of "''CRD''" 2]
  by simp

subsection \<open>Block size 1\<close>

lemma unravel4:
  assumes "n < prod_list [B, C, H, W]"
  obtains b c h w where "b < B" "c < C" "h < H" "w < W"
    and "n = offset (c_strides [B, C, H, W]) [b, c, h, w]"
proof -
  have "list_all2 (<) (unravel [B, C, H, W] n) [B, C, H, W]"
    using assms by (rule unravel_bound)
  then obtain b c h w where u: "unravel [B, C, H, W] n = [b, c, h, w]"
    and bd: "b < B" "c < C" "h < H" "w < W"
    by (auto simp: list_all2_Cons2)
  have "n = offset (c_strides [B, C, H, W]) [b, c, h, w]"
    using offset_unravel [OF assms] unfolding u by simp
  with bd show ?thesis by (rule that)
qed

lemma DCR_source_one:
  assumes "n < prod_list [B, C, H, W]"
  shows "DCR_source B C H W 1 n = n"
proof -
  from assms obtain b c h w where bd: "b < B" "c < C" "h < H" "w < W"
    and n: "n = offset (c_strides [B, C, H, W]) [b, c, h, w]"
    by (rule unravel4)
  show ?thesis
    using DCR_source_coord [of b B c C h H w W 0 1 0] bd unfolding n by simp
qed

lemma CRD_source_one:
  assumes "n < prod_list [B, C, H, W]"
  shows "CRD_source B C H W 1 n = n"
proof -
  from assms obtain b c h w where bd: "b < B" "c < C" "h < H" "w < W"
    and n: "n = offset (c_strides [B, C, H, W]) [b, c, h, w]"
    by (rule unravel4)
  show ?thesis
    using CRD_source_coord [of b B c C h H w W 0 1 0] bd unfolding n by simp
qed

text \<open>
  C5. With block size 1 both transforms are the identity: the result is the input
  tensor, sizes and elements, for every 4-dimensional tensor.
\<close>

theorem block_size_one_identity:
  assumes "tensor_ok x" and "sizes x = [B, C, H, W]"
  shows "DepthToSpace_DCR_forward x 1 mode = Inr x \<and> DepthToSpace_CRD_forward x 1 mode = Inr x"
proof -
  have len: "prod_list [B, C, H, W] = length (storage x)"
    using assms by (simp add: tensor_ok_def)
  have d: "map (\<lambda>n. storage x ! DCR_source B C H W 1 n) [0..<prod_list [B, C, H, W]] = storage x"
  proof -
    have "map (\<lambda>n. storage x ! DCR_source B C H W 1 n) [0..<prod_list [B, C, H, W]]
        = map (\<lambda>n. storage x ! n) [0..<prod_list [B, C, H, W]]"
      by (rule map_cong) (simp_all only: DCR_source_one atLeastLessThan_iff set_upt)
    then show ?thesis unfolding len by (simp only: map_nth)
  qed
  have c: "map (\<lambda>n. storage x ! CRD_source B C H W 1 n) [0..<prod_list [B, C, H, W]] = storage x"
  proof -
    have "map (\<lambda>n. storage x ! CRD_source B C H W 1 n) [0..<prod_list [B, C, H, W]]
        = map (\<lambda>n. storage x ! n) [0..<prod_list [B, C, H, W]]"
      by (rule map_cong) (simp_all only: CRD_source_one atLeastLessThan_iff set_upt)
    then show ?thesis unfolding len by (simp only: map_nth)
  qed
  have x: "\<lparr>sizes = [B, C, H, W], storage = storage x\<rparr> = x"
    using assms(2) by (cases x) simp
  have "DepthToSpace_DCR_forward x (int 1) mode =
      Inr \<lparr>sizes = [B, C div 1\<^sup>2, H * 1, W * 1],
           storage = map (\<lambda>n. storage x ! DCR_source B C H W 1 n) [0..<prod_list [B, C, H, W]]\<rparr>"
    by (rule DCR_forward_source [OF assms(2)])
      (use assms in \<open>simp_all add: tensor_ok_def\<close>)
  then have "DepthToSpace_DCR_forward x 1 mode = Inr x"
    unfolding d using x by simp
  moreover have "DepthToSpace_CRD_forward x (int 1) mode =
      Inr \<lparr>sizes = [B, C div 1\<^sup>2, H * 1, W * 1],
           storage = map (\<lambda>n. storage x ! CRD_source B C H W 1 n) [0..<prod_list [B, C, H, W]]\<rparr>"
    by (rule CRD_forward_source [OF assms(2)])
      (use assms in \<open>simp_all add: tensor_ok_def\<close>)
  then have "DepthToSpace_CRD_forward x 1 mode = Inr x"
    unfolding c using x by simp
  ultimately show ?thesis by simp
qed

theorem block_size_one_identity_witness:
  "tensor_ok test_x \<and> sizes test_x = [1, 8, 2, 2]
   \<and> DepthToSpace_DCR_forward test_x 1 ''DCR'' = Inr test_x
   \<and> DepthToSpace_CRD_forward test_x 1 ''CRD'' = Inr test_x"
  using block_size_one_identity [of test_x 1 8 2 2 "''DCR''"]
    block_size_one_identity [of test_x 1 8 2 2 "''CRD''"]
  by (simp add: test_x_def tensor_ok_def)

subsection \<open>One output channel\<close>

lemma sources_agree:
  assumes "0 < s" and "s\<^sup>2 dvd C" and "C div s\<^sup>2 \<le> 1" and "n < prod_list [B, C, H, W]"
  shows "DCR_source B C H W s n = CRD_source B C H W s n"
proof -
  define C' where "C' = C div s\<^sup>2"
  have C: "C = s * s * C'" using assms(2) by (simp add: C'_def power2_eq_square)
  have "n < prod_list [B, C', H, s, W, s]" using assms(4) by (simp add: C mult_ac)
  then have "list_all2 (<) (unravel [B, C', H, s, W, s] n) [B, C', H, s, W, s]"
    by (rule unravel_bound)
  then obtain i0 i1 i2 i3 i4 i5 where u: "unravel [B, C', H, s, W, s] n = [i0, i1, i2, i3, i4, i5]"
    and i1: "i1 < C'"
    by (auto simp: list_all2_Cons2)
  have one: "C' = 1" and zero: "i1 = 0" using i1 assms(3) by (simp_all add: C'_def)
  have "DCR_source B C H W s n =
      offset (c_strides [B, s, s, C', H, W])
        ((\<lambda>i. [i ! 0, i ! 3, i ! 5, i ! 1, i ! 2, i ! 4]) (unravel [B, C', H, s, W, s] n))"
    by (rule DCR_source_gather) (simp add: C'_def)
  then have "DCR_source B C H W s n =
      offset (c_strides [B, s, s, C', H, W]) [i0, i3, i5, i1, i2, i4]"
    unfolding u by simp
  moreover have "CRD_source B C H W s n =
      offset (c_strides [B, C', s, s, H, W])
        ((\<lambda>i. [i ! 0, i ! 1, i ! 3, i ! 5, i ! 2, i ! 4]) (unravel [B, C', H, s, W, s] n))"
    by (rule CRD_source_gather) (simp add: C'_def)
  then have "CRD_source B C H W s n =
      offset (c_strides [B, C', s, s, H, W]) [i0, i1, i3, i5, i2, i4]"
    unfolding u by simp
  ultimately show ?thesis by (simp add: one zero)
qed

lemma forwards_agree:
  assumes "sizes x = [B, C, H, W]" and "0 < s" and "s\<^sup>2 dvd C" and "C div s\<^sup>2 \<le> 1"
  shows "DepthToSpace_DCR_forward x (int s) m1 = DepthToSpace_CRD_forward x (int s) m2"
proof (cases "fits_int64 [B, s, C div s\<^sup>2, H, W, H * s, W * s]")
  case True
  have "map (\<lambda>n. storage x ! DCR_source B C H W s n) [0..<prod_list [B, C, H, W]]
      = map (\<lambda>n. storage x ! CRD_source B C H W s n) [0..<prod_list [B, C, H, W]]"
    by (rule map_cong) (simp_all only: sources_agree [OF assms(2-4)] atLeastLessThan_iff set_upt)
  then show ?thesis
    unfolding DCR_forward_source [OF assms(1-3) True] CRD_forward_source [OF assms(1-3) True]
    by simp
next
  case False
  show ?thesis
    unfolding DCR_forward_overflow [OF assms(1-3) False] CRD_forward_overflow [OF assms(1-3) False]
    by simp
qed

text \<open>
  C10. When the channel count equals the square of the block size (one output
  channel), \<open>DepthToSpace_DCR.forward\<close> and \<open>DepthToSpace_CRD.forward\<close> return the same
  tensor; and whenever, for a channel count divisible by the square of the block size,
  the two results differ, there is more than one output channel.
\<close>

theorem modes_coincide_on_single_output_channel:
  assumes "tensor_ok x" and "sizes x = [B, C, H, W]" and "0 < s" and "s * s dvd C"
  shows "(C = s * s \<longrightarrow>
            DepthToSpace_DCR_forward x (int s) m1 = DepthToSpace_CRD_forward x (int s) m2)
       \<and> (DepthToSpace_DCR_forward x (int s) m1 \<noteq> DepthToSpace_CRD_forward x (int s) m2 \<longrightarrow>
            1 < C div (s * s))"
proof -
  have dv: "s\<^sup>2 dvd C" using assms(4) by (simp add: power2_eq_square)
  have le: "DepthToSpace_DCR_forward x (int s) m1 = DepthToSpace_CRD_forward x (int s) m2"
    if "C div (s * s) \<le> 1"
    using forwards_agree [OF assms(2,3) dv] that by (simp add: power2_eq_square)
  have "C = s * s \<longrightarrow>
      DepthToSpace_DCR_forward x (int s) m1 = DepthToSpace_CRD_forward x (int s) m2"
    using le assms(3) by simp
  moreover have "DepthToSpace_DCR_forward x (int s) m1 \<noteq> DepthToSpace_CRD_forward x (int s) m2 \<longrightarrow>
      1 < C div (s * s)"
    using le by (cases "C div (s * s) \<le> 1") simp_all
  ultimately show ?thesis by simp
qed

theorem modes_coincide_on_single_output_channel_witness:
  "tensor_ok single_channel_x \<and> sizes single_channel_x = [1, 4, 1, 2]
   \<and> (0::nat) < 2 \<and> (2::nat) * 2 dvd 4
   \<and> DepthToSpace_DCR_forward single_channel_x 2 ''DCR''
       = DepthToSpace_CRD_forward single_channel_x 2 ''CRD''"
  using modes_coincide_on_single_output_channel [of single_channel_x 1 4 1 2 2 "''DCR''" "''CRD''"]
  by (simp add: single_channel_x_def tensor_ok_def)

subsection \<open>Bijectivity\<close>

lemma mset_gather:
  assumes "bij_betw f {..<length xs} {..<length xs}"
  shows "mset (map (\<lambda>n. xs ! f n) [0..<length xs]) = mset xs"
proof -
  have inj: "inj_on f {0..<length xs}" and img: "f ` {0..<length xs} = {0..<length xs}"
    using assms by (simp_all add: bij_betw_def lessThan_atLeast0)
  have "mset (map (\<lambda>n. xs ! f n) [0..<length xs])
      = image_mset ((!) xs) (image_mset f (mset [0..<length xs]))"
    by (simp add: multiset.map_comp comp_def)
  also have "image_mset f (mset [0..<length xs]) = mset [0..<length xs]"
    by (simp only: mset_upt image_mset_mset_set [OF inj] img)
  also have "image_mset ((!) xs) (mset [0..<length xs]) = mset (map ((!) xs) [0..<length xs])"
    by simp
  also have "\<dots> = mset xs" by (simp only: map_nth)
  finally show ?thesis .
qed

lemma triple3:
  assumes "list_all2 (<) u [a, b, c]"
  obtains i j k where "u = [i, j, k]" "i < a" "j < b" "k < c"
  using assms by (auto simp: list_all2_Cons2)

lemma DCR_channel_bij:
  "bij_betw (DCR_channel s c') ({..<c'} \<times> {..<s} \<times> {..<s}) {..<c' * s * s}"
proof (rule bij_betw_byWitness
    [where f' = "\<lambda>n. let u = unravel [s, s, c'] n in (u ! 2, u ! 0, u ! 1)"])
  show "\<forall>t\<in>{..<c'} \<times> {..<s} \<times> {..<s}.
      (let u = unravel [s, s, c'] (DCR_channel s c' t) in (u ! 2, u ! 0, u ! 1)) = t"
  proof
    fix t assume "t \<in> {..<c'} \<times> {..<s} \<times> {..<s}"
    then obtain c i j where t: "t = (c, i, j)" and b: "c < c'" "i < s" "j < s" by auto
    have "unravel [s, s, c'] (offset (c_strides [s, s, c']) [i, j, c]) = [i, j, c]"
      by (rule unravel_offset) (simp add: b)
    then show "(let u = unravel [s, s, c'] (DCR_channel s c' t) in (u ! 2, u ! 0, u ! 1)) = t"
      unfolding t DCR_channel_def by (simp del: unravel.simps offset.simps c_strides.simps)
  qed
  show "\<forall>n\<in>{..<c' * s * s}.
      DCR_channel s c' (let u = unravel [s, s, c'] n in (u ! 2, u ! 0, u ! 1)) = n"
  proof
    fix n assume "n \<in> {..<c' * s * s}"
    then have n: "n < prod_list [s, s, c']" by (simp add: mult_ac)
    from unravel_bound [OF n] obtain i j k where u: "unravel [s, s, c'] n = [i, j, k]"
      by (rule triple3)
    show "DCR_channel s c' (let u = unravel [s, s, c'] n in (u ! 2, u ! 0, u ! 1)) = n"
      using offset_unravel [OF n] unfolding u DCR_channel_def Let_def by simp
  qed
  show "DCR_channel s c' ` ({..<c'} \<times> {..<s} \<times> {..<s}) \<subseteq> {..<c' * s * s}"
  proof
    fix n assume "n \<in> DCR_channel s c' ` ({..<c'} \<times> {..<s} \<times> {..<s})"
    then obtain c i j where n: "n = offset (c_strides [s, s, c']) [i, j, c]"
      and b: "c < c'" "i < s" "j < s" by (auto simp: DCR_channel_def)
    have "offset (c_strides [s, s, c']) [i, j, c] < prod_list [s, s, c']"
      by (rule offset_bound) (simp add: b)
    then show "n \<in> {..<c' * s * s}" unfolding n by (simp add: mult_ac)
  qed
  show "(\<lambda>n. let u = unravel [s, s, c'] n in (u ! 2, u ! 0, u ! 1)) ` {..<c' * s * s}
      \<subseteq> {..<c'} \<times> {..<s} \<times> {..<s}"
  proof
    fix t assume "t \<in> (\<lambda>n. let u = unravel [s, s, c'] n in (u ! 2, u ! 0, u ! 1)) ` {..<c' * s * s}"
    then obtain n where t: "t = (let u = unravel [s, s, c'] n in (u ! 2, u ! 0, u ! 1))"
      and "n < c' * s * s" by auto
    then have n: "n < prod_list [s, s, c']" by (simp add: mult_ac)
    from unravel_bound [OF n] obtain i j k where u: "unravel [s, s, c'] n = [i, j, k]"
      and b: "i < s" "j < s" "k < c'"
      by (rule triple3)
    show "t \<in> {..<c'} \<times> {..<s} \<times> {..<s}"
      unfolding t u Let_def using b by simp
  qed
qed

lemma CRD_channel_bij:
  "bij_betw (CRD_channel s c') ({..<c'} \<times> {..<s} \<times> {..<s}) {..<c' * s * s}"
proof (rule bij_betw_byWitness
    [where f' = "\<lambda>n. let u = unravel [c', s, s] n in (u ! 0, u ! 1, u ! 2)"])
  show "\<forall>t\<in>{..<c'} \<times> {..<s} \<times> {..<s}.
      (let u = unravel [c', s, s] (CRD_channel s c' t) in (u ! 0, u ! 1, u ! 2)) = t"
  proof
    fix t assume "t \<in> {..<c'} \<times> {..<s} \<times> {..<s}"
    then obtain c i j where t: "t = (c, i, j)" and b: "c < c'" "i < s" "j < s" by auto
    have "unravel [c', s, s] (offset (c_strides [c', s, s]) [c, i, j]) = [c, i, j]"
      by (rule unravel_offset) (simp add: b)
    then show "(let u = unravel [c', s, s] (CRD_channel s c' t) in (u ! 0, u ! 1, u ! 2)) = t"
      unfolding t CRD_channel_def by (simp del: unravel.simps offset.simps c_strides.simps)
  qed
  show "\<forall>n\<in>{..<c' * s * s}.
      CRD_channel s c' (let u = unravel [c', s, s] n in (u ! 0, u ! 1, u ! 2)) = n"
  proof
    fix n assume "n \<in> {..<c' * s * s}"
    then have n: "n < prod_list [c', s, s]" by (simp add: mult_ac)
    from unravel_bound [OF n] obtain i j k where u: "unravel [c', s, s] n = [i, j, k]"
      by (rule triple3)
    show "CRD_channel s c' (let u = unravel [c', s, s] n in (u ! 0, u ! 1, u ! 2)) = n"
      using offset_unravel [OF n] unfolding u CRD_channel_def Let_def by simp
  qed
  show "CRD_channel s c' ` ({..<c'} \<times> {..<s} \<times> {..<s}) \<subseteq> {..<c' * s * s}"
  proof
    fix n assume "n \<in> CRD_channel s c' ` ({..<c'} \<times> {..<s} \<times> {..<s})"
    then obtain c i j where n: "n = offset (c_strides [c', s, s]) [c, i, j]"
      and b: "c < c'" "i < s" "j < s" by (auto simp: CRD_channel_def)
    have "offset (c_strides [c', s, s]) [c, i, j] < prod_list [c', s, s]"
      by (rule offset_bound) (simp add: b)
    then show "n \<in> {..<c' * s * s}" unfolding n by (simp add: mult_ac)
  qed
  show "(\<lambda>n. let u = unravel [c', s, s] n in (u ! 0, u ! 1, u ! 2)) ` {..<c' * s * s}
      \<subseteq> {..<c'} \<times> {..<s} \<times> {..<s}"
  proof
    fix t assume "t \<in> (\<lambda>n. let u = unravel [c', s, s] n in (u ! 0, u ! 1, u ! 2)) ` {..<c' * s * s}"
    then obtain n where t: "t = (let u = unravel [c', s, s] n in (u ! 0, u ! 1, u ! 2))"
      and "n < c' * s * s" by auto
    then have n: "n < prod_list [c', s, s]" by (simp add: mult_ac)
    from unravel_bound [OF n] obtain i j k where u: "unravel [c', s, s] n = [i, j, k]"
      and b: "i < c'" "j < s" "k < s"
      by (rule triple3)
    show "t \<in> {..<c'} \<times> {..<s} \<times> {..<s}"
      unfolding t u Let_def using b by simp
  qed
qed


lemma DCR_channel_formula:
  "DCR_channel s c' (c_out, by, bx) = by * s * c' + bx * c' + c_out"
  by (simp add: DCR_channel_def)

lemma CRD_channel_formula:
  "CRD_channel s c' (c_out, by, bx) = c_out * s * s + by * s + bx"
  by (simp add: CRD_channel_def algebra_simps)

text \<open>
  C3. For a block size \<open>s \<ge> 1\<close> and a channel count \<open>C = C_out * s * s\<close>, the channel
  mapping of each mode is a bijection from the triples \<open>(c_out, by, bx)\<close> in
  \<open>{0..<C_out} \<times> {0..<s} \<times> {0..<s}\<close> onto the input channels \<open>{0..<C}\<close>, with the
  formulas \<open>by*s*C_out + bx*C_out + c_out\<close> (DCR) and \<open>c_out*s*s + by*s + bx\<close> (CRD), and
  the source map of each transform is a bijection on the positions of the buffer.
  Consequently, on every 4-dimensional tensor with at least one element each transform
  returns a tensor; and whenever a transform returns, every output position holds the
  input element of its source position, so the output holds the same elements as the
  input, each as many times.
\<close>

theorem rearrangement_bijective:
  assumes "tensor_ok x" and "sizes x = [B, C, H, W]" and "0 < s" and "C = C_out * s * s"
  shows "bij_betw (DCR_channel s C_out) ({..<C_out} \<times> {..<s} \<times> {..<s}) {..<C}
       \<and> bij_betw (CRD_channel s C_out) ({..<C_out} \<times> {..<s} \<times> {..<s}) {..<C}
       \<and> DCR_channel s C_out (c_out, by, bx) = by * s * C_out + bx * C_out + c_out
       \<and> CRD_channel s C_out (c_out, by, bx) = c_out * s * s + by * s + bx
       \<and> bij_betw (DCR_source B C H W s) {..<length (storage x)} {..<length (storage x)}
       \<and> bij_betw (CRD_source B C H W s) {..<length (storage x)} {..<length (storage x)}
       \<and> (storage x \<noteq> [] \<longrightarrow>
             (\<exists>y. DepthToSpace_DCR_forward x (int s) mode = Inr y)
           \<and> (\<exists>y. DepthToSpace_CRD_forward x (int s) mode = Inr y))
       \<and> (DepthToSpace_DCR_forward x (int s) mode = Inr yd \<longrightarrow>
             storage yd = map (\<lambda>n. storage x ! DCR_source B C H W s n) [0..<length (storage x)]
           \<and> mset (storage yd) = mset (storage x))
       \<and> (DepthToSpace_CRD_forward x (int s) mode = Inr yc \<longrightarrow>
             storage yc = map (\<lambda>n. storage x ! CRD_source B C H W s n) [0..<length (storage x)]
           \<and> mset (storage yc) = mset (storage x))"
proof -
  have dv: "s\<^sup>2 dvd C" using assms(4) by (simp add: power2_eq_square)
  have len: "prod_list [B, C, H, W] = length (storage x)"
    using assms(1,2) by (simp add: tensor_ok_def)
  have ch1: "bij_betw (DCR_channel s C_out) ({..<C_out} \<times> {..<s} \<times> {..<s}) {..<C}"
    unfolding assms(4) by (rule DCR_channel_bij)
  have ch2: "bij_betw (CRD_channel s C_out) ({..<C_out} \<times> {..<s} \<times> {..<s}) {..<C}"
    unfolding assms(4) by (rule CRD_channel_bij)
  have bd: "bij_betw (DCR_source B C H W s) {..<length (storage x)} {..<length (storage x)}"
    using DCR_source_bij [OF assms(3) dv, of B H W] unfolding len .
  have bc: "bij_betw (CRD_source B C H W s) {..<length (storage x)} {..<length (storage x)}"
    using CRD_source_bij [OF assms(3) dv, of B H W] unfolding len .
  have ret: "(\<exists>y. DepthToSpace_DCR_forward x (int s) mode = Inr y)
           \<and> (\<exists>y. DepthToSpace_CRD_forward x (int s) mode = Inr y)"
    if ne: "storage x \<noteq> []"
  proof -
    have fits: "fits_int64 [B, s, C div s\<^sup>2, H, W, H * s, W * s]"
      by (rule nonempty_fits [OF assms(1,2) ne assms(3) dv])
    show ?thesis
      unfolding DCR_forward_source [OF assms(2,3) dv fits]
        CRD_forward_source [OF assms(2,3) dv fits]
      by simp
  qed
  have fd: "storage yd = map (\<lambda>n. storage x ! DCR_source B C H W s n) [0..<length (storage x)]
           \<and> mset (storage yd) = mset (storage x)"
    if "DepthToSpace_DCR_forward x (int s) mode = Inr yd"
    using DCR_forward_Inr(2) [OF assms(2,3) dv that] mset_gather [OF bd]
    unfolding len by simp
  have fc: "storage yc = map (\<lambda>n. storage x ! CRD_source B C H W s n) [0..<length (storage x)]
           \<and> mset (storage yc) = mset (storage x)"
    if "DepthToSpace_CRD_forward x (int s) mode = Inr yc"
    using CRD_forward_Inr(2) [OF assms(2,3) dv that] mset_gather [OF bc]
    unfolding len by simp
  show ?thesis
    using ch1 ch2 bd bc ret fd fc DCR_channel_formula [of s C_out c_out "by" bx]
      CRD_channel_formula [of s C_out c_out "by" bx]
    by blast
qed

theorem rearrangement_bijective_witness:
  "tensor_ok test_x \<and> sizes test_x = [1, 8, 2, 2] \<and> (0::nat) < 2 \<and> (8::nat) = 2 * 2 * 2
   \<and> storage test_x \<noteq> []
   \<and> bij_betw (DCR_channel 2 2) ({..<2} \<times> {..<2} \<times> {..<2}) {..<8}
   \<and> bij_betw (CRD_channel 2 2) ({..<2} \<times> {..<2} \<times> {..<2}) {..<8}
   \<and> bij_betw (DCR_source 1 8 2 2 2) {..<32} {..<32}
   \<and> bij_betw (CRD_source 1 8 2 2 2) {..<32} {..<32}
   \<and> (\<exists>y. DepthToSpace_DCR_forward test_x 2 ''DCR'' = Inr y
          \<and> mset (storage y) = mset (storage test_x))
   \<and> (\<exists>y. DepthToSpace_CRD_forward test_x 2 ''DCR'' = Inr y
          \<and> mset (storage y) = mset (storage test_x))"
proof -
  let ?yd = "\<lparr>sizes = [1, 2, 4, 4],
             storage = [0, 1, 2, 3, 4, 5, 6, 7, 8, 9, 10, 11, 12, 13, 14, 15, 0, 1, 2, 3,
                        4, 5, 6, 7, 8, 9, 10, 11, 12, 13, 14, 15 :: real]\<rparr>"
  let ?yc = "\<lparr>sizes = [1, 2, 4, 4],
             storage = [0, 0, 2, 2, 1, 1, 3, 3, 8, 8, 10, 10, 9, 9, 11, 11, 4, 4, 6, 6,
                        5, 5, 7, 7, 12, 12, 14, 14, 13, 13, 15, 15 :: real]\<rparr>"
  have ok: "tensor_ok test_x" and sz: "sizes test_x = [1, 8, 2, 2]"
    and len: "length (storage test_x) = 32" and ne: "storage test_x \<noteq> []"
    by (simp_all add: test_x_def tensor_ok_def)
  have s: "(0::nat) < 2" and c: "(8::nat) = 2 * 2 * 2" by simp_all
  have d: "DepthToSpace_DCR_forward test_x (int 2) ''DCR'' = Inr ?yd"
    using DCR_test_x [of "''DCR''"] by simp
  have e: "DepthToSpace_CRD_forward test_x (int 2) ''DCR'' = Inr ?yc"
    using CRD_test_x [of "''DCR''"] by simp
  note t = rearrangement_bijective [OF ok sz s c, of 0 0 0 "''DCR''" ?yd ?yc]
  have md: "mset (storage ?yd) = mset (storage test_x)" using t d by blast
  have mc: "mset (storage ?yc) = mset (storage test_x)" using t e by blast
  have "\<exists>y. DepthToSpace_DCR_forward test_x 2 ''DCR'' = Inr y
          \<and> mset (storage y) = mset (storage test_x)"
    using d md by (intro exI [of _ ?yd]) simp
  moreover have "\<exists>y. DepthToSpace_CRD_forward test_x 2 ''DCR'' = Inr y
          \<and> mset (storage y) = mset (storage test_x)"
    using e mc by (intro exI [of _ ?yc]) simp
  ultimately show ?thesis using t ok sz ne unfolding len by simp
qed

subsection \<open>A channel count that the block size does not divide\<close>

lemma block_size_zero:
  "sizes x = [B, C, H, W] \<Longrightarrow>
     DepthToSpace_DCR_forward x 0 mode = Inl ZeroDivisionError
     \<and> DepthToSpace_CRD_forward x 0 mode = Inl ZeroDivisionError"
  by (simp add: DepthToSpace_DCR_forward_def DepthToSpace_CRD_forward_def)


lemma view_below_minus_one:
  "\<not> list_ex (\<lambda>d. d < - (2 ^ 63) \<or> 2 ^ 63 \<le> d) shp \<Longrightarrow> list_ex (\<lambda>d. d < - 1) shp
     \<Longrightarrow> view t shp = Inl RuntimeError"
  by (simp add: view_def Let_def)

lemma first_view_rejects:
  assumes "tensor_ok x" and "sizes x = [B, C, H, W]" and "0 < B" and "0 < H" and "0 < W"
    and "block_size \<noteq> 0" and "- (2 ^ 63) \<le> block_size" and "block_size < 2 ^ 63"
    and "\<not> block_size\<^sup>2 dvd int C"
  shows "view x [int B, block_size, block_size, int C div block_size\<^sup>2, int H, int W]
           = Inl RuntimeError"
    and "view x [int B, int C div block_size\<^sup>2, block_size, block_size, int H, int W]
           = Inl RuntimeError"
proof -
  have fx: "B < 2 ^ 63" "C < 2 ^ 63" "H < 2 ^ 63" "W < 2 ^ 63"
    using assms(1,2) by (simp_all add: tensor_ok_def)
  have not1: "block_size \<noteq> - 1" using assms(9) by auto
  consider (neg) "block_size < - 1" | (pos) "0 < block_size"
    using assms(6) not1 by linarith
  then have "view x [int B, block_size, block_size, int C div block_size\<^sup>2, int H, int W]
           = Inl RuntimeError
      \<and> view x [int B, int C div block_size\<^sup>2, block_size, block_size, int H, int W]
           = Inl RuntimeError"
  proof cases
    case neg
    have "block_size\<^sup>2 = (int (nat \<bar>block_size\<bar>))\<^sup>2" by simp
    then have q: "int C div block_size\<^sup>2 = int (C div (nat \<bar>block_size\<bar>)\<^sup>2)"
      by (simp only: zdiv_int of_nat_power)
    have q0: "0 \<le> int C div block_size\<^sup>2" unfolding q by simp
    have "C div (nat \<bar>block_size\<bar>)\<^sup>2 < 2 ^ 63"
      by (rule le_less_trans [OF div_le_dividend fx(2)])
    then have q1: "int C div block_size\<^sup>2 < 2 ^ 63" unfolding q by simp
    have r1: "\<not> list_ex (\<lambda>d. d < - (2 ^ 63) \<or> 2 ^ 63 \<le> d)
        [int B, block_size, block_size, int C div block_size\<^sup>2, int H, int W]"
      using fx assms(7,8) q0 q1 by simp
    have r2: "\<not> list_ex (\<lambda>d. d < - (2 ^ 63) \<or> 2 ^ 63 \<le> d)
        [int B, int C div block_size\<^sup>2, block_size, block_size, int H, int W]"
      using fx assms(7,8) q0 q1 by simp
    show ?thesis
      using neg by (simp add: view_below_minus_one [OF r1] view_below_minus_one [OF r2])
  next
    case pos
    then obtain s where s: "block_size = int s" and s0: "0 < s"
      by (metis zero_less_imp_eq_int)
    have s63: "s < 2 ^ 63" using assms(8) unfolding s by simp
    have nd: "\<not> s\<^sup>2 dvd C" using assms(9) unfolding s
      by (metis of_nat_dvd_iff of_nat_power)
    have ne: "C \<noteq> s * (s * (C div s\<^sup>2))"
    proof
      assume "C = s * (s * (C div s\<^sup>2))"
      then have "C = s\<^sup>2 * (C div s\<^sup>2)" by (simp add: power2_eq_square)
      then have "s\<^sup>2 dvd C" by (rule dvdI)
      with nd show False by simp
    qed
    have q: "C div s\<^sup>2 < 2 ^ 63"
      by (rule le_less_trans [OF div_le_dividend fx(2)])
    have f1: "fits_int64 [B, s, s, C div s\<^sup>2, H, W]"
      and f2: "fits_int64 [B, C div s\<^sup>2, s, s, H, W]"
      using fx s63 q by simp_all
    have "prod_list (sizes x) \<noteq> prod_list [B, s, s, C div s\<^sup>2, H, W]"
      using ne assms(2-5) by simp
    moreover have "prod_list (sizes x) \<noteq> prod_list [B, C div s\<^sup>2, s, s, H, W]"
      using ne assms(2-5) by (simp add: mult_ac)
    ultimately show ?thesis
      unfolding s view_shape_DCR view_shape_CRD view_of_nat using f1 f2 by simp
  qed
  then show "view x [int B, block_size, block_size, int C div block_size\<^sup>2, int H, int W]
           = Inl RuntimeError"
    and "view x [int B, int C div block_size\<^sup>2, block_size, block_size, int H, int W]
           = Inl RuntimeError"
    by simp_all
qed

lemma block_size_beyond_int64:
  "DepthToSpace_DCR_forward test_x (2 ^ 63) mode = Inl TypeError
   \<and> DepthToSpace_CRD_forward test_x (2 ^ 63) mode = Inl TypeError"
  by (simp add: test_x_def DepthToSpace_DCR_forward_def DepthToSpace_CRD_forward_def view_def)

lemma empty_tensor_negative_block_size:
  "DepthToSpace_DCR_forward empty_x (- 3) mode = Inl RuntimeError
   \<and> DepthToSpace_CRD_forward empty_x (- 3) mode = Inl RuntimeError"
  by (simp add: empty_x_def DepthToSpace_DCR_forward_def DepthToSpace_CRD_forward_def view_def)

text \<open>
  C7, as the code has it. For a 4-dimensional tensor with at least one element and a
  block size that is a 64-bit integer other than 0 whose square does not divide the
  channel count, each transform fails with the \<open>RuntimeError\<close> of its first \<open>view\<close>,
  before \<open>permute\<close> and before any element is copied.
\<close>

theorem indivisible_channel_rejected:
  assumes "tensor_ok x" and "sizes x = [B, C, H, W]" and "storage x \<noteq> []"
    and "block_size \<noteq> 0" and "- (2 ^ 63) \<le> block_size" and "block_size < 2 ^ 63"
    and "\<not> block_size\<^sup>2 dvd int C"
  shows "view x [int B, block_size, block_size, int C div block_size\<^sup>2, int H, int W]
           = Inl RuntimeError
       \<and> DepthToSpace_DCR_forward x block_size mode = Inl RuntimeError
       \<and> view x [int B, int C div block_size\<^sup>2, block_size, block_size, int H, int W]
           = Inl RuntimeError
       \<and> DepthToSpace_CRD_forward x block_size mode = Inl RuntimeError"
proof -
  have len: "length (storage x) = prod_list [B, C, H, W]"
    using assms(1,2) by (simp add: tensor_ok_def)
  have "0 < length (storage x)" using assms(3) by simp
  then have "0 < prod_list [B, C, H, W]" unfolding len .
  then have pos: "0 < B" "0 < H" "0 < W" by simp_all
  note v = first_view_rejects [OF assms(1,2) pos assms(4-7)]
  show ?thesis
    using v assms(2,4)
    by (simp add: DepthToSpace_DCR_forward_def DepthToSpace_CRD_forward_def)
qed

theorem indivisible_channel_rejected_witness:
  "tensor_ok test_x \<and> sizes test_x = [1, 8, 2, 2] \<and> storage test_x \<noteq> []
   \<and> (3::int) \<noteq> 0 \<and> - (2 ^ 63) \<le> (3::int) \<and> (3::int) < 2 ^ 63
   \<and> \<not> (3::int)\<^sup>2 dvd int 8
   \<and> DepthToSpace_DCR_forward test_x 3 ''DCR'' = Inl RuntimeError
   \<and> DepthToSpace_CRD_forward test_x 3 ''CRD'' = Inl RuntimeError"
proof -
  have ok: "tensor_ok test_x" and sz: "sizes test_x = [1, 8, 2, 2]" and ne: "storage test_x \<noteq> []"
    by (simp_all add: test_x_def tensor_ok_def)
  have b: "(3::int) \<noteq> 0" "- (2 ^ 63) \<le> (3::int)" "(3::int) < 2 ^ 63"
    and nd: "\<not> (3::int)\<^sup>2 dvd int 8" by simp_all
  from indivisible_channel_rejected [OF ok sz ne b nd, of "''DCR''"]
    indivisible_channel_rejected [OF ok sz ne b nd, of "''CRD''"]
  show ?thesis using ok sz ne nd by simp
qed

text \<open>
  The claim as stated, for every tensor, does not hold: a tensor with no element
  (batch size 0, channel count 8) and block size 3 passes both \<open>view\<close>s, and the
  transform returns an empty tensor of sizes \<open>(0, 0, 6, 6)\<close>.
\<close>

theorem empty_tensor_not_rejected:
  "tensor_ok empty_x \<and> sizes empty_x = [0, 8, 2, 2] \<and> \<not> (3::nat)\<^sup>2 dvd 8
   \<and> DepthToSpace_DCR_forward empty_x 3 ''DCR'' = Inr \<lparr>sizes = [0, 0, 6, 6], storage = []\<rparr>
   \<and> DepthToSpace_CRD_forward empty_x 3 ''CRD'' = Inr \<lparr>sizes = [0, 0, 6, 6], storage = []\<rparr>"
  by (simp add: empty_x_def tensor_ok_def DepthToSpace_DCR_forward_def
      DepthToSpace_CRD_forward_def view_def permute_def contiguous_def)

end
